theory Spec2Isabelle
  imports Main "HOL-Library.Word" "HOL-Library.AList"
begin

section \<open>asd::vector: a growable array over manually managed storage\<close>

text \<open>
  A shallow embedding of \<^verbatim>\<open>src/vector.hpp\<close>. The class template \<^verbatim>\<open>asd::vector<T>\<close>
  separates raw storage (\<^verbatim>\<open>asd::allocator<T>\<close>, on top of \<^verbatim>\<open>malloc\<close>/\<^verbatim>\<open>free\<close>) from the
  construction and destruction of elements (placement \<^verbatim>\<open>new\<close>, \<^verbatim>\<open>std::destroy\<close>).
  The embedding therefore has an explicit memory: blocks of slots, each slot either raw
  storage or a live object, and a trace of the memory events of a run.
\<close>

subsection \<open>Machine integers\<close>

text \<open>
  \<^verbatim>\<open>std::size_t\<close> is a 64-bit unsigned integer (LP64), \<^verbatim>\<open>int\<close> a 32-bit two's complement
  integer. Arithmetic on \<open>size_t\<close> wraps around modulo \<open>2 ^ 64\<close>.
\<close>

type_synonym size_t = "64 word"
type_synonym c_int = "32 word"

text \<open>
  The helpers \<^verbatim>\<open>asd::move\<close> and \<^verbatim>\<open>asd::copy\<close> take their element count as \<^verbatim>\<open>int count\<close>, and
  every caller passes a \<open>size_t\<close>: the argument is narrowed to 32 bits.
\<close>

definition int_of_size_t :: "size_t \<Rightarrow> c_int" where
  "int_of_size_t n = ucast n"

text \<open>
  Their loops compare \<^verbatim>\<open>size_t i\<close> with \<^verbatim>\<open>int count\<close>: the usual arithmetic conversions turn
  \<open>count\<close> into a \<open>size_t\<close> by sign extension.
\<close>

definition size_t_of_int :: "c_int \<Rightarrow> size_t" where
  "size_t_of_int c = scast c"

subsection \<open>Memory\<close>

type_synonym addr = nat \<comment> \<open>the base address of a block; \<open>0\<close> is \<^verbatim>\<open>nullptr\<close>\<close>

datatype 'a slot = Raw | Obj 'a

datatype event =
    Malloc addr nat \<comment> \<open>\<^verbatim>\<open>malloc\<close> returned a block of so many bytes\<close>
  | Free addr \<comment> \<open>\<^verbatim>\<open>free\<close> was called on the pointer\<close>
  | Construct addr nat \<comment> \<open>a constructor of \<open>T\<close> ran on slot \<open>i\<close> of the block (placement \<^verbatim>\<open>new\<close>)\<close>
  | Destroy addr nat \<comment> \<open>the destructor of \<open>T\<close> ran on slot \<open>i\<close> of the block\<close>

record 'a heap =
  blocks :: "(addr \<times> 'a slot list) list" \<comment> \<open>the blocks that are allocated and not yet freed\<close>
  mem_limit :: nat \<comment> \<open>the largest request, in bytes, that \<^verbatim>\<open>malloc\<close> can satisfy\<close>
  trace :: "event list" \<comment> \<open>the memory events so far, oldest first\<close>

text \<open>
  What the template needs to know about its element type \<open>T\<close>: \<^verbatim>\<open>sizeof(T)\<close>, the trait
  \<^verbatim>\<open>std::is_trivially_destructible_v<T>\<close>, and the state in which the move constructor of
  \<open>T\<close> leaves its argument. The copy constructor of \<open>T\<close> builds an equal value.
\<close>

record 'a elem_type =
  sizeof :: size_t
  trivially_destructible :: bool
  moved_from :: "'a \<Rightarrow> 'a"

text \<open>
  \<^verbatim>\<open>std::bad_alloc\<close> is the only exception of the program; the error value carries the state
  in which it was thrown. Undefined behaviour (an access outside a block, a read of raw
  storage, \<^verbatim>\<open>free\<close> of a pointer that is not allocated) has no state.
\<close>

datatype 's error = OutOfMemory 's | Undefined

definition block_at :: "'a heap \<Rightarrow> addr \<Rightarrow> 'a slot list option" where
  "block_at h p = (if p = 0 then None else map_of (blocks h) p)"

definition fresh :: "(addr \<times> 'b) list \<Rightarrow> addr" where
  "fresh bs = Suc (fold max (map fst bs) 0)"

text \<open>
  \<^verbatim>\<open>malloc(bytes)\<close> on behalf of element type \<open>T\<close>: the null pointer when the request cannot
  be satisfied (nothing changes), else a block at an unused address, with room for
  \<open>bytes div sizeof(T)\<close> elements, all raw.
\<close>

definition malloc :: "'a elem_type \<Rightarrow> size_t \<Rightarrow> 'a heap \<Rightarrow> addr \<times> 'a heap" where
  "malloc T bytes h =
     (if unat bytes \<le> mem_limit h then
        (let p = fresh (blocks h) in
          (p, h\<lparr>blocks := (p, replicate (unat bytes div unat (sizeof T)) Raw) # blocks h,
                 trace := trace h @ [Malloc p (unat bytes)]\<rparr>))
      else (0, h))"

text \<open>\<^verbatim>\<open>free(ptr)\<close>: nothing happens for the null pointer; the block of \<open>ptr\<close> is released.\<close>

definition free :: "addr \<Rightarrow> 'a heap \<Rightarrow> 'a heap option" where
  "free ptr h =
     (if ptr = 0 then Some (h\<lparr>trace := trace h @ [Free ptr]\<rparr>)
      else (case block_at h ptr of
              None \<Rightarrow> None
            | Some _ \<Rightarrow> Some (h\<lparr>blocks := AList.delete ptr (blocks h),
                                trace := trace h @ [Free ptr]\<rparr>)))"

text \<open>Reading the object in slot \<open>i\<close> of a block: \<^verbatim>\<open>ptr[i]\<close> as an rvalue.\<close>

definition load :: "'a heap \<Rightarrow> addr \<Rightarrow> nat \<Rightarrow> 'a option" where
  "load h ptr i =
     (case block_at h ptr of
        None \<Rightarrow> None
      | Some sl \<Rightarrow> (if i < length sl then (case sl ! i of Raw \<Rightarrow> None | Obj x \<Rightarrow> Some x) else None))"

text \<open>Overwriting slot \<open>i\<close> of a block (no event).\<close>

definition store :: "addr \<Rightarrow> nat \<Rightarrow> 'a slot \<Rightarrow> 'a heap \<Rightarrow> 'a heap option" where
  "store ptr i s h =
     (case block_at h ptr of
        None \<Rightarrow> None
      | Some sl \<Rightarrow>
          (if i < length sl then Some (h\<lparr>blocks := AList.update ptr (sl[i := s]) (blocks h)\<rparr>)
           else None))"

text \<open>
  \<^verbatim>\<open>new (ptr + i) T(x)\<close>: a constructor of \<open>T\<close> runs on slot \<open>i\<close>, whatever the slot held
  before; an object that lived there is gone without its destructor having run.
\<close>

definition placement_new :: "addr \<Rightarrow> nat \<Rightarrow> 'a \<Rightarrow> 'a heap \<Rightarrow> 'a heap option" where
  "placement_new ptr i x h =
     (case store ptr i (Obj x) h of
        None \<Rightarrow> None
      | Some h' \<Rightarrow> Some (h'\<lparr>trace := trace h' @ [Construct ptr i]\<rparr>))"

text \<open>\<^verbatim>\<open>std::destroy_at(ptr + i)\<close>: the destructor runs on a live object; the slot is raw again.\<close>

definition destroy_at :: "addr \<Rightarrow> nat \<Rightarrow> 'a heap \<Rightarrow> 'a heap option" where
  "destroy_at ptr i h =
     (case load h ptr i of
        None \<Rightarrow> None
      | Some _ \<Rightarrow>
          (case store ptr i Raw h of
             None \<Rightarrow> None
           | Some h' \<Rightarrow> Some (h'\<lparr>trace := trace h' @ [Destroy ptr i]\<rparr>)))"

subsection \<open>asd::move and asd::copy\<close>

text \<open>
  \<^verbatim>\<open>for (size_t i = 0; i < count; i++) new (output + i) T(std::move(input[i]));\<close>
  The loop index is a \<open>nat\<close>: \<open>i < n < 2 ^ 64\<close> in every iteration, so \<open>i++\<close> never wraps.
  \<open>n\<close> is \<open>count\<close> as the comparison reads it.
\<close>

function move_loop ::
  "'a elem_type \<Rightarrow> addr \<Rightarrow> addr \<Rightarrow> nat \<Rightarrow> nat \<Rightarrow> 'a heap \<Rightarrow> 'a heap option" where
  "move_loop T input output n i h =
     (if i < n then
        (case load h input i of
           None \<Rightarrow> None
         | Some x \<Rightarrow>
             (case placement_new output i x h of
                None \<Rightarrow> None
              | Some h1 \<Rightarrow>
                  (case store input i (Obj (moved_from T x)) h1 of
                     None \<Rightarrow> None
                   | Some h2 \<Rightarrow> move_loop T input output n (Suc i) h2)))
      else Some h)"
  by pat_completeness auto
termination
  by (relation "measure (\<lambda>(T, input, output, n, i, h). n - i)") auto

definition move :: "'a elem_type \<Rightarrow> addr \<Rightarrow> c_int \<Rightarrow> addr \<Rightarrow> 'a heap \<Rightarrow> 'a heap option" where
  "move T input count output h = move_loop T input output (unat (size_t_of_int count)) 0 h"

text \<open>\<^verbatim>\<open>for (size_t i = 0; i < count; i++) new (output + i) T(input[i]);\<close>\<close>

function copy_loop :: "addr \<Rightarrow> addr \<Rightarrow> nat \<Rightarrow> nat \<Rightarrow> 'a heap \<Rightarrow> 'a heap option" where
  "copy_loop input output n i h =
     (if i < n then
        (case load h input i of
           None \<Rightarrow> None
         | Some x \<Rightarrow>
             (case placement_new output i x h of
                None \<Rightarrow> None
              | Some h1 \<Rightarrow> copy_loop input output n (Suc i) h1))
      else Some h)"
  by pat_completeness auto
termination
  by (relation "measure (\<lambda>(input, output, n, i, h). n - i)") auto

definition copy :: "addr \<Rightarrow> c_int \<Rightarrow> addr \<Rightarrow> 'a heap \<Rightarrow> 'a heap option" where
  "copy input count output h = copy_loop input output (unat (size_t_of_int count)) 0 h"

subsection \<open>asd::allocator\<close>

text \<open>
  \<^verbatim>\<open>T *allocate(std::size_t n)\<close>: \<^verbatim>\<open>malloc(n * sizeof(T))\<close>, the product taken in \<open>size_t\<close>;
  \<^verbatim>\<open>std::bad_alloc\<close> when \<^verbatim>\<open>malloc\<close> returns the null pointer.
\<close>

definition allocate ::
  "'a elem_type \<Rightarrow> size_t \<Rightarrow> 'a heap \<Rightarrow> 'a heap error + (addr \<times> 'a heap)" where
  "allocate T n h =
     (case malloc T (n * sizeof T) h of
        (ptr, h') \<Rightarrow> if ptr = 0 then Inl (OutOfMemory h') else Inr (ptr, h'))"

definition deallocate :: "addr \<Rightarrow> 'a heap \<Rightarrow> 'a heap option" where
  "deallocate ptr h = free ptr h"

subsection \<open>asd::vector\<close>

text \<open>The allocator member has no state of its own and is left out of the record.\<close>

record vector =
  m_count :: size_t
  m_capacity :: size_t
  m_data_ptr :: addr

definition reset :: vector where
  "reset = \<lparr>m_count = 0, m_capacity = 0, m_data_ptr = 0\<rparr>"

definition init :: "size_t \<Rightarrow> size_t \<Rightarrow> addr \<Rightarrow> vector" where
  "init capacity count data_ptr =
     \<lparr>m_count = count, m_capacity = capacity, m_data_ptr = data_ptr\<rparr>"

definition size_vec :: "vector \<Rightarrow> size_t" where
  "size_vec v = m_count v"

definition capacity :: "vector \<Rightarrow> size_t" where
  "capacity v = m_capacity v"

text \<open>
  \<^verbatim>\<open>reallocate()\<close>: the exception of \<open>allocate\<close> leaves before anything of the vector
  has changed.
\<close>

definition reallocate ::
  "'a elem_type \<Rightarrow> vector \<Rightarrow> 'a heap \<Rightarrow> (vector \<times> 'a heap) error + (vector \<times> 'a heap)" where
  "reallocate T v h =
     (let new_capacity = (if m_capacity v = 0 then 1 else m_capacity v * 2) in
      case allocate T new_capacity h of
        Inl (OutOfMemory h') \<Rightarrow> Inl (OutOfMemory (v, h'))
      | Inl Undefined \<Rightarrow> Inl Undefined
      | Inr (new_data_ptr, h1) \<Rightarrow>
          (case move T (m_data_ptr v) (int_of_size_t (m_count v)) new_data_ptr h1 of
             None \<Rightarrow> Inl Undefined
           | Some h2 \<Rightarrow>
               (case deallocate (m_data_ptr v) h2 of
                  None \<Rightarrow> Inl Undefined
                | Some h3 \<Rightarrow> Inr (init new_capacity (m_count v) new_data_ptr, h3))))"

text \<open>\<^verbatim>\<open>std::destroy(first, last)\<close> over the slots \<open>[i, n)\<close> of the block.\<close>

function destroy_loop :: "addr \<Rightarrow> nat \<Rightarrow> nat \<Rightarrow> 'a heap \<Rightarrow> 'a heap option" where
  "destroy_loop ptr n i h =
     (if i < n then
        (case destroy_at ptr i h of
           None \<Rightarrow> None
         | Some h1 \<Rightarrow> destroy_loop ptr n (Suc i) h1)
      else Some h)"
  by pat_completeness auto
termination
  by (relation "measure (\<lambda>(ptr, n, i, h). n - i)") auto

definition destroy :: "'a elem_type \<Rightarrow> vector \<Rightarrow> 'a heap \<Rightarrow> 'a heap option" where
  "destroy T v h =
     (case (if \<not> trivially_destructible T
            then destroy_loop (m_data_ptr v) (unat (m_count v)) 0 h
            else Some h) of
        None \<Rightarrow> None
      | Some h1 \<Rightarrow> deallocate (m_data_ptr v) h1)"

text \<open>\<^verbatim>\<open>vector()\<close>\<close>

definition vector_default :: vector where
  "vector_default = reset"

text \<open>\<^verbatim>\<open>vector(const vector &other)\<close>\<close>

definition vector_copy ::
  "'a elem_type \<Rightarrow> vector \<Rightarrow> 'a heap \<Rightarrow> 'a heap error + (vector \<times> 'a heap)" where
  "vector_copy T other h =
     (if size_vec other = 0 then Inr (reset, h)
      else
        (case allocate T (size_vec other) h of
           Inl e \<Rightarrow> Inl e
         | Inr (data_ptr, h1) \<Rightarrow>
             (case copy (m_data_ptr other) (int_of_size_t (size_vec other)) data_ptr h1 of
                None \<Rightarrow> Inl Undefined
              | Some h2 \<Rightarrow> Inr (init (size_vec other) (size_vec other) data_ptr, h2))))"

text \<open>\<^verbatim>\<open>vector(vector &&other)\<close>: the new vector and what is left of \<open>other\<close>.\<close>

definition vector_move :: "vector \<Rightarrow> vector \<times> vector" where
  "vector_move other = (init (m_capacity other) (m_count other) (m_data_ptr other), reset)"

text \<open>
  \<^verbatim>\<open>vector& operator= (const vector& other)\<close>, for \<open>other\<close> an object distinct from
  \<^verbatim>\<open>*this\<close>, or the same object with \<open>m_count \<le> m_capacity\<close> (the branch that replaces
  \<open>m_data_ptr\<close> is then not taken, so the fields of \<open>other\<close> are read as they were).
  The result is the new \<^verbatim>\<open>*this\<close>, the memory, and the object the returned reference
  denotes.
\<close>

definition copy_assign ::
  "'a elem_type \<Rightarrow> vector \<Rightarrow> vector \<Rightarrow> 'a heap \<Rightarrow>
     (vector \<times> 'a heap) error + (vector \<times> 'a heap \<times> vector option)" where
  "copy_assign T this other h =
     (case (if m_capacity this < m_count other then
              (case allocate T (m_count other) h of
                 Inl (OutOfMemory h') \<Rightarrow> Inl (OutOfMemory (this, h'))
               | Inl Undefined \<Rightarrow> Inl Undefined
               | Inr (new_data_ptr, h1) \<Rightarrow>
                   (case destroy T this h1 of
                      None \<Rightarrow> Inl Undefined
                    | Some h2 \<Rightarrow> Inr (this\<lparr>m_data_ptr := new_data_ptr\<rparr>, h2)))
            else Inr (this, h)) of
        Inl e \<Rightarrow> Inl e
      | Inr (this1, h3) \<Rightarrow>
          (case copy (m_data_ptr other) (int_of_size_t (m_count other)) (m_data_ptr this1) h3 of
             None \<Rightarrow> Inl Undefined
           | Some h4 \<Rightarrow>
               (let this2 = init (size_vec other) (size_vec other) (m_data_ptr this1)
                in Inr (this2, h4, Some this2))))"

text \<open>
  \<^verbatim>\<open>vector& operator= (vector&& other) noexcept\<close>, for \<open>other\<close> an object distinct from
  \<^verbatim>\<open>*this\<close>. The body ends after \<^verbatim>\<open>other.reset();\<close> with no \<^verbatim>\<open>return\<close> statement: the
  result is the new \<^verbatim>\<open>*this\<close>, what is left of \<open>other\<close>, the memory, and no returned
  object.
\<close>

definition move_assign ::
  "'a elem_type \<Rightarrow> vector \<Rightarrow> vector \<Rightarrow> 'a heap \<Rightarrow>
     (vector \<times> vector \<times> 'a heap \<times> vector option) option" where
  "move_assign T this other h =
     (case destroy T this h of
        None \<Rightarrow> None
      | Some h1 \<Rightarrow>
          Some (init (m_capacity other) (m_count other) (m_data_ptr other), reset, h1, None))"

text \<open>\<^verbatim>\<open>~vector()\<close>\<close>

definition vector_destructor :: "'a elem_type \<Rightarrow> vector \<Rightarrow> 'a heap \<Rightarrow> 'a heap option" where
  "vector_destructor T v h = destroy T v h"

text \<open>
  \<^verbatim>\<open>push_back(U &&item)\<close>: \<open>item\<close> is the value the new element is constructed from
  (by copy or by move, as the caller passed it).
\<close>

definition push_back ::
  "'a elem_type \<Rightarrow> vector \<Rightarrow> 'a \<Rightarrow> 'a heap \<Rightarrow> (vector \<times> 'a heap) error + (vector \<times> 'a heap)" where
  "push_back T v item h =
     (case (if m_count v = m_capacity v then reallocate T v h else Inr (v, h)) of
        Inl e \<Rightarrow> Inl e
      | Inr (v1, h1) \<Rightarrow>
          (case placement_new (m_data_ptr v1) (unat (m_count v1)) item h1 of
             None \<Rightarrow> Inl Undefined
           | Some h2 \<Rightarrow> Inr (v1\<lparr>m_count := m_count v1 + 1\<rparr>, h2)))"

text \<open>
  \<^verbatim>\<open>emplace_back(Args... args)\<close>: \<open>ctor\<close> is the constructor of \<open>T\<close> that the arguments
  select.
\<close>

definition emplace_back ::
  "'a elem_type \<Rightarrow> vector \<Rightarrow> ('b \<Rightarrow> 'a) \<Rightarrow> 'b \<Rightarrow> 'a heap \<Rightarrow>
     (vector \<times> 'a heap) error + (vector \<times> 'a heap)" where
  "emplace_back T v ctor args h =
     (case (if m_count v = m_capacity v then reallocate T v h else Inr (v, h)) of
        Inl e \<Rightarrow> Inl e
      | Inr (v1, h1) \<Rightarrow>
          (case placement_new (m_data_ptr v1) (unat (m_count v1)) (ctor args) h1 of
             None \<Rightarrow> Inl Undefined
           | Some h2 \<Rightarrow> Inr (v1\<lparr>m_count := m_count v1 + 1\<rparr>, h2)))"



subsection \<open>Client code\<close>




text \<open>The element types of the example: \<^verbatim>\<open>int\<close> and \<^verbatim>\<open>std::string\<close>.\<close>

definition T_int :: "int elem_type" where
  "T_int = \<lparr>sizeof = 4, trivially_destructible = True, moved_from = (\<lambda>x. x)\<rparr>"

definition T_string :: "string elem_type" where
  "T_string = \<lparr>sizeof = 32, trivially_destructible = False, moved_from = (\<lambda>s. [])\<rparr>"

definition empty_heap :: "nat \<Rightarrow> 'a heap" where
  "empty_heap lim = \<lparr>blocks = [], mem_limit = lim, trace = []\<rparr>"

subsection \<open>Representation\<close>

text \<open>
  \<open>holds v h xs\<close>: in memory \<open>h\<close> the vector \<open>v\<close> represents the sequence \<open>xs\<close>. Its count is
  the length of \<open>xs\<close> and at most its capacity; a null \<open>m_data_ptr\<close> comes with capacity
  zero, any other points to a block with room for the capacity whose first slots are live
  objects with the values of \<open>xs\<close>, in order.
\<close>

definition holds :: "vector \<Rightarrow> 'a heap \<Rightarrow> 'a list \<Rightarrow> bool" where
  "holds v h xs \<longleftrightarrow>
     unat (m_count v) = length xs \<and> m_count v \<le> m_capacity v \<and>
     (if m_data_ptr v = 0 then m_capacity v = 0
      else (case block_at h (m_data_ptr v) of
              None \<Rightarrow> False
            | Some sl \<Rightarrow> unat (m_capacity v) \<le> length sl \<and> take (length xs) sl = map Obj xs))"

text \<open>The storage pointer is null exactly when the capacity is zero.\<close>

definition null_iff_empty :: "vector \<Rightarrow> bool" where
  "null_iff_empty v \<longleftrightarrow> (m_data_ptr v = 0) = (m_capacity v = 0)"


section \<open>Memory primitives\<close>

lemma fold_max_ge0: "m \<le> fold max ks (m::nat)"
proof (induction ks arbitrary: m)
  case Nil
  show ?case by simp
next
  case (Cons a ks)
  have "m \<le> max a m" by simp
  also have "\<dots> \<le> fold max ks (max a m)" by (rule Cons.IH)
  finally show ?case by simp
qed

lemma fold_max_ge: "k \<in> set ks \<Longrightarrow> k \<le> fold max ks (m::nat)"
proof (induction ks arbitrary: m)
  case Nil
  then show ?case by simp
next
  case (Cons a ks)
  show ?case
  proof (cases "k = a")
    case True
    have "k \<le> max a m" using True by simp
    also have "\<dots> \<le> fold max ks (max a m)" by (rule fold_max_ge0)
    finally show ?thesis by simp
  next
    case False
    with Cons.prems have "k \<in> set ks" by simp
    then have "k \<le> fold max ks (max a m)" by (rule Cons.IH)
    then show ?thesis by simp
  qed
qed

lemma fresh_neq_0: "fresh bs \<noteq> 0"
  by (simp add: fresh_def)

lemma fresh_unused: "map_of bs (fresh bs) = None"
proof (rule ccontr)
  assume "map_of bs (fresh bs) \<noteq> None"
  then have "fresh bs \<in> fst ` set bs"
    by (simp add: map_of_eq_None_iff)
  then have "fresh bs \<in> set (map fst bs)" by simp
  then have "fresh bs \<le> fold max (map fst bs) 0" by (rule fold_max_ge)
  then show False by (simp add: fresh_def)
qed

lemma block_at_null: "block_at h 0 = None"
  by (simp add: block_at_def)

lemma block_at_fresh: "block_at h (fresh (blocks h)) = None"
  by (simp add: block_at_def fresh_unused)

lemma block_at_trace_update: "block_at (h\<lparr>trace := t\<rparr>) = block_at h"
  by (rule ext) (simp add: block_at_def)

lemma block_at_update:
  "p \<noteq> 0 \<Longrightarrow> block_at (h\<lparr>blocks := AList.update p sl (blocks h)\<rparr>) = (block_at h)(p \<mapsto> sl)"
  by (rule ext) (simp add: block_at_def update_conv')

lemma block_at_delete:
  "block_at (h\<lparr>blocks := AList.delete p (blocks h)\<rparr>) = (block_at h)(p := None)"
  by (rule ext) (simp add: block_at_def delete_conv')

lemma block_at_cons:
  "p \<noteq> 0 \<Longrightarrow> block_at (h\<lparr>blocks := (p, sl) # blocks h\<rparr>) = (block_at h)(p \<mapsto> sl)"
  by (rule ext) (simp add: block_at_def)

lemma load_Some_iff:
  "load h p i = Some x \<longleftrightarrow> (\<exists>sl. block_at h p = Some sl \<and> i < length sl \<and> sl ! i = Obj x)"
  by (auto simp: load_def split: option.splits slot.splits)

lemma store_Some:
  assumes "store p i s h = Some h'"
  shows "\<exists>sl. block_at h p = Some sl \<and> i < length sl \<and>
               block_at h' = (block_at h)(p \<mapsto> sl[i := s]) \<and>
               trace h' = trace h \<and> mem_limit h' = mem_limit h"
proof -
  from assms obtain sl where sl: "block_at h p = Some sl" and i: "i < length sl"
    and h': "h' = h\<lparr>blocks := AList.update p (sl[i := s]) (blocks h)\<rparr>"
    by (auto simp: store_def split: option.splits if_splits)
  from sl have "p \<noteq> 0" by (auto simp: block_at_def split: if_splits)
  then have "block_at h' = (block_at h)(p \<mapsto> sl[i := s])"
    unfolding h' by (rule block_at_update)
  with sl i h' show ?thesis by simp
qed

lemma placement_new_Some:
  assumes "placement_new p i x h = Some h'"
  shows "\<exists>sl. block_at h p = Some sl \<and> i < length sl \<and>
               block_at h' = (block_at h)(p \<mapsto> sl[i := Obj x]) \<and>
               trace h' = trace h @ [Construct p i] \<and> mem_limit h' = mem_limit h"
proof -
  from assms obtain h1 where s: "store p i (Obj x) h = Some h1"
    and h': "h' = h1\<lparr>trace := trace h1 @ [Construct p i]\<rparr>"
    by (auto simp: placement_new_def split: option.splits)
  from store_Some [OF s] h' show ?thesis
    by (auto simp: block_at_trace_update)
qed

lemma destroy_at_Some:
  assumes "destroy_at p i h = Some h'"
  shows "\<exists>sl x. block_at h p = Some sl \<and> i < length sl \<and> sl ! i = Obj x \<and>
               block_at h' = (block_at h)(p \<mapsto> sl[i := Raw]) \<and>
               trace h' = trace h @ [Destroy p i] \<and> mem_limit h' = mem_limit h"
proof -
  from assms obtain x h1 where l: "load h p i = Some x" and s: "store p i Raw h = Some h1"
    and h': "h' = h1\<lparr>trace := trace h1 @ [Destroy p i]\<rparr>"
    by (auto simp: destroy_at_def split: option.splits)
  from store_Some [OF s] l h' show ?thesis
    by (auto simp: block_at_trace_update load_Some_iff)
qed

lemma free_Some:
  assumes "free p h = Some h'"
  shows "(p = 0 \<or> block_at h p \<noteq> None) \<and> block_at h' = (block_at h)(p := None) \<and>
         trace h' = trace h @ [Free p] \<and> mem_limit h' = mem_limit h"
proof (cases "p = 0")
  case True
  with assms have "h' = h\<lparr>trace := trace h @ [Free p]\<rparr>" by (simp add: free_def)
  moreover have "(block_at h)(0 := None) = block_at h"
    by (rule ext) (simp add: block_at_null)
  ultimately show ?thesis using True by (simp add: block_at_trace_update)
next
  case False
  with assms obtain sl where "block_at h p = Some sl"
    and "h' = h\<lparr>blocks := AList.delete p (blocks h), trace := trace h @ [Free p]\<rparr>"
    by (auto simp: free_def split: option.splits)
  moreover have "block_at (h\<lparr>blocks := AList.delete p (blocks h), trace := trace h @ [Free p]\<rparr>)
     = (block_at h)(p := None)"
    by (rule ext) (simp add: block_at_def delete_conv')
  ultimately show ?thesis by simp
qed

lemma malloc_null:
  "malloc T bytes h = (p, h') \<Longrightarrow> p = 0 \<Longrightarrow> h' = h \<and> mem_limit h < unat bytes"
  by (auto simp: malloc_def Let_def fresh_neq_0 split: if_splits)

lemma malloc_block:
  assumes "malloc T bytes h = (p, h')" and "p \<noteq> 0"
  shows "block_at h p = None \<and>
         block_at h' = (block_at h)(p \<mapsto> replicate (unat bytes div unat (sizeof T)) Raw) \<and>
         trace h' = trace h @ [Malloc p (unat bytes)] \<and> mem_limit h' = mem_limit h \<and>
         unat bytes \<le> mem_limit h"
proof -
  from assms have le: "unat bytes \<le> mem_limit h" and p: "p = fresh (blocks h)"
    and h': "h' = h\<lparr>blocks := (p, replicate (unat bytes div unat (sizeof T)) Raw) # blocks h,
                    trace := trace h @ [Malloc p (unat bytes)]\<rparr>"
    by (auto simp: malloc_def Let_def split: if_splits)
  have "block_at h' = (block_at h)(p \<mapsto> replicate (unat bytes div unat (sizeof T)) Raw)"
    unfolding h' using assms(2) by (intro ext) (simp add: block_at_def)
  with le p h' show ?thesis by (simp add: block_at_fresh)
qed


declare copy_loop.simps [simp del] move_loop.simps [simp del] destroy_loop.simps [simp del]

lemma copy_loop_done: "\<not> i < n \<Longrightarrow> copy_loop input output n i h = Some h"
  by (subst copy_loop.simps) simp

lemma copy_loop_step:
  assumes "i < n" and "copy_loop input output n i h = Some h'"
  obtains x h1 where "load h input i = Some x" and "placement_new output i x h = Some h1"
    and "copy_loop input output n (Suc i) h1 = Some h'"
  using assms by (subst (asm) copy_loop.simps) (auto split: option.splits)

lemma move_loop_done: "\<not> i < n \<Longrightarrow> move_loop T input output n i h = Some h"
  by (subst move_loop.simps) simp

lemma move_loop_step:
  assumes "i < n" and "move_loop T input output n i h = Some h'"
  obtains x h1 h2 where "load h input i = Some x" and "placement_new output i x h = Some h1"
    and "store input i (Obj (moved_from T x)) h1 = Some h2"
    and "move_loop T input output n (Suc i) h2 = Some h'"
  using assms by (subst (asm) move_loop.simps) (auto split: option.splits)

lemma destroy_loop_done: "\<not> i < n \<Longrightarrow> destroy_loop p n i h = Some h"
  by (subst destroy_loop.simps) simp

lemma destroy_loop_step:
  assumes "i < n" and "destroy_loop p n i h = Some h'"
  obtains h1 where "destroy_at p i h = Some h1" and "destroy_loop p n (Suc i) h1 = Some h'"
  using assms by (subst (asm) destroy_loop.simps) (auto split: option.splits)

lemma copy_loop_shape:
  "copy_loop inp out n i h = Some h' \<Longrightarrow>
     mem_limit h' = mem_limit h \<and>
     trace h' = trace h @ map (Construct out) [i..<n] \<and>
     (\<forall>q. q \<noteq> out \<longrightarrow> block_at h' q = block_at h q) \<and>
     (\<forall>q. map_option length (block_at h' q) = map_option length (block_at h q))"
proof (induction inp out n i h rule: copy_loop.induct)
  case (1 inp out n i h)
  show ?case
  proof (cases "i < n")
    case False
    with "1.prems" show ?thesis by (simp add: copy_loop_done)
  next
    case True
    from True "1.prems" obtain x h1 where l: "load h inp i = Some x"
      and p: "placement_new out i x h = Some h1"
      and r: "copy_loop inp out n (Suc i) h1 = Some h'"
      by (rule copy_loop_step)
    from placement_new_Some [OF p] obtain sl where sl: "block_at h out = Some sl"
      "i < length sl" "block_at h1 = (block_at h)(out \<mapsto> sl[i := Obj x])"
      "trace h1 = trace h @ [Construct out i]" "mem_limit h1 = mem_limit h"
      by blast
    from "1.IH" [OF True l p r]
    have ih: "mem_limit h' = mem_limit h1"
      "trace h' = trace h1 @ map (Construct out) [Suc i..<n]"
      "\<forall>q. q \<noteq> out \<longrightarrow> block_at h' q = block_at h1 q"
      "\<forall>q. map_option length (block_at h' q) = map_option length (block_at h1 q)"
      by simp_all
    have "trace h' = trace h @ map (Construct out) [i..<n]"
      using ih(2) sl(4) True by (simp add: upt_conv_Cons)
    moreover have "\<forall>q. q \<noteq> out \<longrightarrow> block_at h' q = block_at h q"
      using ih(3) sl(3) by simp
    moreover have "\<forall>q. map_option length (block_at h' q) = map_option length (block_at h q)"
      using ih(4) sl(1,3) by simp
    ultimately show ?thesis using ih(1) sl(5) by simp
  qed
qed


lemma move_loop_shape:
  "move_loop T inp out n i h = Some h' \<Longrightarrow>
     mem_limit h' = mem_limit h \<and>
     trace h' = trace h @ map (Construct out) [i..<n] \<and>
     (\<forall>q. q \<noteq> out \<and> q \<noteq> inp \<longrightarrow> block_at h' q = block_at h q) \<and>
     (\<forall>q. map_option length (block_at h' q) = map_option length (block_at h q))"
proof (induction T inp out n i h rule: move_loop.induct)
  case (1 T inp out n i h)
  show ?case
  proof (cases "i < n")
    case False
    with "1.prems" show ?thesis by (simp add: move_loop_done)
  next
    case True
    from True "1.prems" obtain x h1 h2 where l: "load h inp i = Some x"
      and p: "placement_new out i x h = Some h1"
      and s: "store inp i (Obj (moved_from T x)) h1 = Some h2"
      and r: "move_loop T inp out n (Suc i) h2 = Some h'"
      by (rule move_loop_step)
    from placement_new_Some [OF p] obtain sl where sl: "block_at h out = Some sl"
      "i < length sl" "block_at h1 = (block_at h)(out \<mapsto> sl[i := Obj x])"
      "trace h1 = trace h @ [Construct out i]" "mem_limit h1 = mem_limit h"
      by blast
    from store_Some [OF s] obtain tl where tl: "block_at h1 inp = Some tl"
      "i < length tl" "block_at h2 = (block_at h1)(inp \<mapsto> tl[i := Obj (moved_from T x)])"
      "trace h2 = trace h1" "mem_limit h2 = mem_limit h1"
      by blast
    from "1.IH" [OF True l p s r]
    have ih: "mem_limit h' = mem_limit h2"
      "trace h' = trace h2 @ map (Construct out) [Suc i..<n]"
      "\<forall>q. q \<noteq> out \<and> q \<noteq> inp \<longrightarrow> block_at h' q = block_at h2 q"
      "\<forall>q. map_option length (block_at h' q) = map_option length (block_at h2 q)"
      by simp_all
    have "trace h' = trace h @ map (Construct out) [i..<n]"
      using ih(2) sl(4) tl(4) True by (simp add: upt_conv_Cons)
    moreover have "\<forall>q. q \<noteq> out \<and> q \<noteq> inp \<longrightarrow> block_at h' q = block_at h q"
      using ih(3) sl(3) tl(3) by simp
    moreover have "\<forall>q. map_option length (block_at h2 q) = map_option length (block_at h1 q)"
      using tl(1,3) by simp
    moreover have "\<forall>q. map_option length (block_at h1 q) = map_option length (block_at h q)"
      using sl(1,3) by simp
    ultimately show ?thesis using ih(1,4) sl(5) tl(5) by simp
  qed
qed

lemma destroy_loop_shape:
  "destroy_loop p n i h = Some h' \<Longrightarrow>
     mem_limit h' = mem_limit h \<and>
     trace h' = trace h @ map (Destroy p) [i..<n] \<and>
     (\<forall>q. q \<noteq> p \<longrightarrow> block_at h' q = block_at h q) \<and>
     (\<forall>q. map_option length (block_at h' q) = map_option length (block_at h q))"
proof (induction p n i h rule: destroy_loop.induct)
  case (1 p n i h)
  show ?case
  proof (cases "i < n")
    case False
    with "1.prems" show ?thesis by (simp add: destroy_loop_done)
  next
    case True
    from True "1.prems" obtain h1 where d: "destroy_at p i h = Some h1"
      and r: "destroy_loop p n (Suc i) h1 = Some h'"
      by (rule destroy_loop_step)
    from destroy_at_Some [OF d] obtain sl where sl: "block_at h p = Some sl"
      "i < length sl" "block_at h1 = (block_at h)(p \<mapsto> sl[i := Raw])"
      "trace h1 = trace h @ [Destroy p i]" "mem_limit h1 = mem_limit h"
      by blast
    from "1.IH" [OF True d r]
    have ih: "mem_limit h' = mem_limit h1"
      "trace h' = trace h1 @ map (Destroy p) [Suc i..<n]"
      "\<forall>q. q \<noteq> p \<longrightarrow> block_at h' q = block_at h1 q"
      "\<forall>q. map_option length (block_at h' q) = map_option length (block_at h1 q)"
      by simp_all
    have "trace h' = trace h @ map (Destroy p) [i..<n]"
      using ih(2) sl(4) True by (simp add: upt_conv_Cons)
    moreover have "\<forall>q. q \<noteq> p \<longrightarrow> block_at h' q = block_at h q"
      using ih(3) sl(3) by simp
    moreover have "\<forall>q. map_option length (block_at h' q) = map_option length (block_at h q)"
      using ih(4) sl(1,3) by simp
    ultimately show ?thesis using ih(1) sl(5) by simp
  qed
qed


lemma move_loop_content:
  assumes "move_loop T inp out n i h = Some h'" and "inp \<noteq> out" and "i < n"
  shows "\<exists>src dst dst'. block_at h inp = Some src \<and> block_at h out = Some dst \<and>
           block_at h' out = Some dst' \<and> length dst' = length dst \<and>
           n \<le> length dst \<and> n \<le> length src \<and>
           (\<forall>j<length dst. dst' ! j = (if i \<le> j \<and> j < n then src ! j else dst ! j)) \<and>
           (\<forall>j. i \<le> j \<and> j < n \<longrightarrow> src ! j \<noteq> Raw)"
  using assms
proof (induction T inp out n i h rule: move_loop.induct)
  case (1 T inp out n i h)
  from "1.prems" obtain x h1 h2 where l: "load h inp i = Some x"
    and p: "placement_new out i x h = Some h1"
    and s: "store inp i (Obj (moved_from T x)) h1 = Some h2"
    and r: "move_loop T inp out n (Suc i) h2 = Some h'"
    by (auto elim: move_loop_step)
  from l obtain src where src: "block_at h inp = Some src" "i < length src" "src ! i = Obj x"
    by (auto simp: load_Some_iff)
  from placement_new_Some [OF p] obtain dst where dst: "block_at h out = Some dst"
    "i < length dst" "block_at h1 = (block_at h)(out \<mapsto> dst[i := Obj x])"
    by blast
  have src1: "block_at h1 inp = Some src" using dst(3) src(1) "1.prems"(2) by simp
  from store_Some [OF s] src1
  have h2: "block_at h2 = (block_at h1)(inp \<mapsto> src[i := Obj (moved_from T x)])"
    by auto
  have src2: "block_at h2 inp = Some (src[i := Obj (moved_from T x)])" using h2 by simp
  have dst2: "block_at h2 out = Some (dst[i := Obj x])" using h2 dst(3) "1.prems"(2) by simp
  show ?case
  proof (cases "Suc i < n")
    case False
    with "1.prems"(3) have n: "n = Suc i" by simp
    with r have "h' = h2" by (simp add: move_loop_done)
    with src dst dst2 n show ?thesis
      by (auto simp: nth_list_update less_Suc_eq)
  next
    case True
    from "1.IH" [OF "1.prems"(3) l p s r "1.prems"(2) True] src2 dst2
    obtain dst' where d': "block_at h' out = Some dst'" "length dst' = length dst"
      "n \<le> length dst" "n \<le> length src"
      "\<forall>j<length dst. dst' ! j =
         (if Suc i \<le> j \<and> j < n then (src[i := Obj (moved_from T x)]) ! j else (dst[i := Obj x]) ! j)"
      "\<forall>j. Suc i \<le> j \<and> j < n \<longrightarrow> (src[i := Obj (moved_from T x)]) ! j \<noteq> Raw"
      by auto
    have "\<forall>j<length dst. dst' ! j = (if i \<le> j \<and> j < n then src ! j else dst ! j)"
    proof (intro allI impI)
      fix j assume j: "j < length dst"
      show "dst' ! j = (if i \<le> j \<and> j < n then src ! j else dst ! j)"
      proof (cases "j = i")
        case True
        with d'(5) j src(3) dst(2) "1.prems"(3) show ?thesis by simp
      next
        case False
        with d'(5) j show ?thesis by (auto simp: Suc_le_eq)
      qed
    qed
    moreover have "\<forall>j. i \<le> j \<and> j < n \<longrightarrow> src ! j \<noteq> Raw"
    proof (intro allI impI)
      fix j assume j: "i \<le> j \<and> j < n"
      show "src ! j \<noteq> Raw"
      proof (cases "j = i")
        case True
        with src(3) show ?thesis by simp
      next
        case False
        with j d'(6) show ?thesis by (auto simp: Suc_le_eq)
      qed
    qed
    ultimately show ?thesis using src(1) dst(1) d'(1-4) by simp
  qed
qed

section \<open>Machine arithmetic\<close>

lemma loop_bound_small:
  assumes "unat n < 2 ^ 31"
  shows "unat (size_t_of_int (int_of_size_t n)) = unat n"
proof -
  have "uint n = int (unat n)" by simp
  also have "\<dots> < int (2 ^ 31)" using assms by (simp only: of_nat_less_iff)
  finally have u: "uint n < 2 ^ 31" by simp
  have u0: "0 \<le> uint n" by simp
  have "sint (ucast n :: 32 word) = signed_take_bit 31 (uint n)"
    by (simp add: signed_ucast_eq)
  also have "\<dots> = uint n"
  proof (rule signed_take_bit_int_eq_self)
    have "- (2 ^ 31) \<le> (0::int)" by simp
    then show "- (2 ^ 31) \<le> uint n" using u0 by (rule order_trans)
    show "uint n < 2 ^ 31" using u by simp
  qed
  finally have "scast (ucast n :: 32 word) = (word_of_int (uint n) :: 64 word)"
    by (simp add: scast_eq)
  then show ?thesis by (simp add: size_t_of_int_def int_of_size_t_def)
qed






section \<open>The allocator\<close>

lemma allocate_Inl:
  assumes "allocate T n h = Inl e"
  shows "e = OutOfMemory h \<and> mem_limit h < unat (n * sizeof T)"
proof -
  obtain p h' where m: "malloc T (n * sizeof T) h = (p, h')" by (cases "malloc T (n * sizeof T) h")
  with assms have "p = 0" and "e = OutOfMemory h'"
    by (auto simp: allocate_def split: if_splits)
  with malloc_null [OF m] show ?thesis by simp
qed

lemma allocate_Inr:
  assumes "allocate T n h = Inr (p, h')"
  shows "p \<noteq> 0 \<and> block_at h p = None \<and>
         block_at h' = (block_at h)(p \<mapsto> replicate (unat (n * sizeof T) div unat (sizeof T)) Raw) \<and>
         trace h' = trace h @ [Malloc p (unat (n * sizeof T))] \<and> mem_limit h' = mem_limit h \<and>
         unat (n * sizeof T) \<le> mem_limit h"
proof -
  from assms have m: "malloc T (n * sizeof T) h = (p, h')" and p: "p \<noteq> 0"
    by (auto simp: allocate_def split: prod.splits if_splits)
  from malloc_block [OF m p] p show ?thesis by simp
qed

lemma slots_exact:
  fixes n sz :: size_t
  assumes "sz \<noteq> 0" and "unat n \<le> (2 ^ 64 - 1) div unat sz"
  shows "unat (n * sz) div unat sz = unat n"
proof -
  have s: "0 < unat sz" using assms(1) by (simp add: unat_gt_0)
  from assms(2) s have "unat n * unat sz \<le> 2 ^ 64 - 1"
    by (simp add: less_eq_div_iff_mult_less_eq)
  then have "unat n * unat sz < 2 ^ 64" by simp
  then have "unat (n * sz) = unat n * unat sz"
    by (simp add: unat_word_ariths)
  with s show ?thesis by simp
qed

lemma slots_wrapped:
  fixes n sz :: size_t
  assumes "(2 ^ 64 - 1) div unat sz < unat n"
  shows "unat (n * sz) div unat sz < unat n"
proof -
  have "unat (n * sz) < 2 ^ 64" using unsigned_less [of "n * sz", where ?'a = nat] by simp
  then have "unat (n * sz) \<le> 2 ^ 64 - 1" by simp
  then have "unat (n * sz) div unat sz \<le> (2 ^ 64 - 1) div unat sz" by (rule div_le_mono)
  with assms show ?thesis by simp
qed

text \<open>
  C8. \<open>allocate(n)\<close> either throws \<^verbatim>\<open>std::bad_alloc\<close>, with the memory as it was, or returns
  a non-null pointer to a new block of raw slots. The block has
  \<open>(n * sizeof(T) mod 2 ^ 64) div sizeof(T)\<close> slots: exactly \<open>n\<close> when \<open>n\<close> is at most
  \<open>SIZE_MAX div sizeof(T)\<close>, and fewer than \<open>n\<close> when \<open>n\<close> exceeds it.
\<close>

theorem allocate_result:
  assumes "sizeof T \<noteq> 0"
  shows "(allocate T n h = Inl (OutOfMemory h) \<and> mem_limit h < unat (n * sizeof T)) \<or>
         (\<exists>p h' k. allocate T n h = Inr (p, h') \<and> p \<noteq> 0 \<and> block_at h p = None \<and>
            block_at h' = (block_at h)(p \<mapsto> replicate k Raw) \<and>
            k = unat (n * sizeof T) div unat (sizeof T) \<and>
            (unat n \<le> (2 ^ 64 - 1) div unat (sizeof T) \<longrightarrow> k = unat n) \<and>
            ((2 ^ 64 - 1) div unat (sizeof T) < unat n \<longrightarrow> k < unat n))"
proof (cases "allocate T n h")
  case (Inl e)
  with allocate_Inl [OF Inl] show ?thesis by simp
next
  case (Inr r)
  obtain p h' where r: "r = (p, h')" by (cases r)
  from allocate_Inr [OF Inr [unfolded r]] Inr r slots_exact [OF assms, of n]
    slots_wrapped [of "sizeof T" n]
  show ?thesis by auto
qed

theorem allocate_result_witness:
  "sizeof T_int \<noteq> 0 \<and>
   allocate T_int 3 (empty_heap 100 :: int heap) =
     Inr (1, \<lparr>blocks = [(1, [Raw, Raw, Raw])], mem_limit = 100, trace = [Malloc 1 12]\<rparr>) \<and>
   allocate T_int 26 (empty_heap 100 :: int heap) = Inl (OutOfMemory (empty_heap 100)) \<and>
   allocate T_int (2 ^ 62 + 1) (empty_heap 100 :: int heap) =
     Inr (1, \<lparr>blocks = [(1, [Raw])], mem_limit = 100, trace = [Malloc 1 4]\<rparr>)"
proof -
  have s: "sizeof T_int \<noteq> 0" by (simp add: T_int_def)
  have a: "allocate T_int 3 (empty_heap 100 :: int heap) =
     Inr (1, \<lparr>blocks = [(1, [Raw, Raw, Raw])], mem_limit = 100, trace = [Malloc 1 12]\<rparr>)"
    by code_simp
  have b: "allocate T_int 26 (empty_heap 100 :: int heap) = Inl (OutOfMemory (empty_heap 100))"
    by code_simp
  have c: "allocate T_int (2 ^ 62 + 1) (empty_heap 100 :: int heap) =
     Inr (1, \<lparr>blocks = [(1, [Raw])], mem_limit = 100, trace = [Malloc 1 4]\<rparr>)"
    by code_simp
  from allocate_result [OF s, of 3 "empty_heap 100"] s a b c show ?thesis by simp
qed

section \<open>Growth\<close>

lemma move_loop_source:
  assumes "move_loop T inp out n i h = Some h'" and "inp \<noteq> out" and "block_at h inp = Some src"
  shows "\<exists>src'. block_at h' inp = Some src' \<and> length src' = length src \<and>
           (\<forall>j<length src. src' ! j =
              (if i \<le> j \<and> j < n
               then (case src ! j of Raw \<Rightarrow> Raw | Obj x \<Rightarrow> Obj (moved_from T x))
               else src ! j))"
  using assms
proof (induction T inp out n i h arbitrary: src rule: move_loop.induct)
  case (1 T inp out n i h)
  show ?case
  proof (cases "i < n")
    case False
    with "1.prems" have "h' = h" by (simp add: move_loop_done)
    moreover from False have "\<forall>j<length src. src ! j =
              (if i \<le> j \<and> j < n
               then (case src ! j of Raw \<Rightarrow> Raw | Obj x \<Rightarrow> Obj (moved_from T x))
               else src ! j)"
    proof (intro allI impI)
      fix j
      from False have nj: "\<not> (i \<le> j \<and> j < n)" by linarith
      show "src ! j =
              (if i \<le> j \<and> j < n
               then (case src ! j of Raw \<Rightarrow> Raw | Obj x \<Rightarrow> Obj (moved_from T x))
               else src ! j)" by (simp only: if_not_P [OF nj])
    qed
    ultimately show ?thesis using "1.prems"(3) by blast
  next
    case True
    from True "1.prems"(1) obtain x h1 h2 where l: "load h inp i = Some x"
      and p: "placement_new out i x h = Some h1"
      and s: "store inp i (Obj (moved_from T x)) h1 = Some h2"
      and r: "move_loop T inp out n (Suc i) h2 = Some h'"
      by (rule move_loop_step)
    from l "1.prems"(3) have src: "i < length src" "src ! i = Obj x"
      by (auto simp: load_Some_iff)
    from placement_new_Some [OF p] "1.prems"(2,3)
    have src1: "block_at h1 inp = Some src" by auto
    from store_Some [OF s] src1
    have src2: "block_at h2 inp = Some (src[i := Obj (moved_from T x)])" by auto
    from "1.IH" [OF True l p s r "1.prems"(2) src2]
    obtain src' where s': "block_at h' inp = Some src'" "length src' = length src"
      "\<forall>j<length src. src' ! j =
         (if Suc i \<le> j \<and> j < n
          then (case (src[i := Obj (moved_from T x)]) ! j of Raw \<Rightarrow> Raw | Obj x \<Rightarrow> Obj (moved_from T x))
          else (src[i := Obj (moved_from T x)]) ! j)"
      by auto
    have "\<forall>j<length src. src' ! j =
         (if i \<le> j \<and> j < n
          then (case src ! j of Raw \<Rightarrow> Raw | Obj x \<Rightarrow> Obj (moved_from T x))
          else src ! j)"
    proof (intro allI impI)
      fix j assume j: "j < length src"
      show "src' ! j = (if i \<le> j \<and> j < n
          then (case src ! j of Raw \<Rightarrow> Raw | Obj x \<Rightarrow> Obj (moved_from T x))
          else src ! j)"
      proof (cases "j = i")
        case True
        with s'(3) j src True \<open>i < n\<close> show ?thesis by simp
      next
        case False
        with s'(3) j show ?thesis by (auto simp: Suc_le_eq)
      qed
    qed
    with s'(1,2) show ?thesis by blast
  qed
qed

lemma reallocate_Inr:
  assumes "reallocate T v h = Inr (v', h')"
  obtains p h1 h2 where
    "allocate T (if m_capacity v = 0 then 1 else m_capacity v * 2) h = Inr (p, h1)"
    "move T (m_data_ptr v) (int_of_size_t (m_count v)) p h1 = Some h2"
    "deallocate (m_data_ptr v) h2 = Some h'"
    "v' = init (if m_capacity v = 0 then 1 else m_capacity v * 2) (m_count v) p"
  using assms
  by (auto simp: reallocate_def Let_def split: sum.splits error.splits option.splits prod.splits)

lemma reallocate_Inl:
  assumes "reallocate T v h = Inl (OutOfMemory s)"
  shows "s = (v, h) \<and>
         allocate T (if m_capacity v = 0 then 1 else m_capacity v * 2) h = Inl (OutOfMemory h)"
proof -
  from assms obtain h0 where
    a: "allocate T (if m_capacity v = 0 then 1 else m_capacity v * 2) h = Inl (OutOfMemory h0)"
    and s: "s = (v, h0)"
    by (auto simp: reallocate_def Let_def split: sum.splits error.splits option.splits prod.splits)
  from allocate_Inl [OF a] a s show ?thesis by simp
qed

lemma reallocate_alloc_fails:
  assumes "allocate T (if m_capacity v = 0 then 1 else m_capacity v * 2) h = Inl e"
  shows "reallocate T v h = Inl (OutOfMemory (v, h))"
  using assms allocate_Inl [OF assms] by (simp add: reallocate_def Let_def)

text \<open>
  C4. When \<open>push_back\<close> or \<open>emplace_back\<close> throws \<^verbatim>\<open>std::bad_alloc\<close>, the vector was full,
  the allocation of the grown storage is what failed, and the state in which the exception
  leaves is the state before the call: the same vector fields and the same memory (blocks
  with their elements, and trace). Conversely, when the vector is full and the allocation
  of the grown storage fails, both operations throw in the unchanged state.
\<close>

theorem growth_failure_leaves_vector_unchanged:
  "(push_back T v item h = Inl (OutOfMemory s) \<longrightarrow>
      s = (v, h) \<and> m_count v = m_capacity v \<and>
      allocate T (if m_capacity v = 0 then 1 else m_capacity v * 2) h = Inl (OutOfMemory h)) \<and>
   (emplace_back T v ctor args h = Inl (OutOfMemory s') \<longrightarrow>
      s' = (v, h) \<and> m_count v = m_capacity v \<and>
      allocate T (if m_capacity v = 0 then 1 else m_capacity v * 2) h = Inl (OutOfMemory h)) \<and>
   (m_count v = m_capacity v \<and>
    allocate T (if m_capacity v = 0 then 1 else m_capacity v * 2) h = Inl e \<longrightarrow>
      push_back T v item h = Inl (OutOfMemory (v, h)) \<and>
      emplace_back T v ctor args h = Inl (OutOfMemory (v, h)))"
proof (intro conjI impI)
  assume a: "push_back T v item h = Inl (OutOfMemory s)"
  then have c: "m_count v = m_capacity v" and r: "reallocate T v h = Inl (OutOfMemory s)"
    by (auto simp: push_back_def split: if_splits sum.splits option.splits prod.splits)
  from c show "m_count v = m_capacity v" .
  from reallocate_Inl [OF r] show "s = (v, h)"
    and "allocate T (if m_capacity v = 0 then 1 else m_capacity v * 2) h = Inl (OutOfMemory h)"
    by simp_all
next
  assume a: "emplace_back T v ctor args h = Inl (OutOfMemory s')"
  then have c: "m_count v = m_capacity v" and r: "reallocate T v h = Inl (OutOfMemory s')"
    by (auto simp: emplace_back_def split: if_splits sum.splits option.splits prod.splits)
  from c show "m_count v = m_capacity v" .
  from reallocate_Inl [OF r] show "s' = (v, h)"
    and "allocate T (if m_capacity v = 0 then 1 else m_capacity v * 2) h = Inl (OutOfMemory h)"
    by simp_all
next
  assume a: "m_count v = m_capacity v \<and>
    allocate T (if m_capacity v = 0 then 1 else m_capacity v * 2) h = Inl e"
  then have r: "reallocate T v h = Inl (OutOfMemory (v, h))"
    by (intro reallocate_alloc_fails) simp
  with a show "push_back T v item h = Inl (OutOfMemory (v, h))"
    by (simp add: push_back_def)
  from r a show "emplace_back T v ctor args h = Inl (OutOfMemory (v, h))"
    by (simp add: emplace_back_def)
qed

theorem growth_failure_witness:
  "push_back T_int \<lparr>m_count = 1, m_capacity = 1, m_data_ptr = 1\<rparr> 6
     \<lparr>blocks = [(1, [Obj 5])], mem_limit = 4, trace = []\<rparr> =
   Inl (OutOfMemory (\<lparr>m_count = 1, m_capacity = 1, m_data_ptr = 1\<rparr>,
     \<lparr>blocks = [(1, [Obj 5])], mem_limit = 4, trace = []\<rparr>)) \<and>
   emplace_back T_int \<lparr>m_count = 1, m_capacity = 1, m_data_ptr = 1\<rparr> (\<lambda>x. x + 1) 5
     \<lparr>blocks = [(1, [Obj 5])], mem_limit = 4, trace = []\<rparr> =
   Inl (OutOfMemory (\<lparr>m_count = 1, m_capacity = 1, m_data_ptr = 1\<rparr>,
     \<lparr>blocks = [(1, [Obj 5])], mem_limit = 4, trace = []\<rparr>)) \<and>
   allocate T_int 2 \<lparr>blocks = [(1, [Obj 5])], mem_limit = 4, trace = []\<rparr> =
   Inl (OutOfMemory \<lparr>blocks = [(1, [Obj 5])], mem_limit = 4, trace = []\<rparr>)"
proof -
  define v where "v = \<lparr>m_count = 1, m_capacity = 1, m_data_ptr = 1\<rparr>"
  define h :: "int heap" where "h = \<lparr>blocks = [(1, [Obj 5])], mem_limit = 4, trace = []\<rparr>"
  have a: "allocate T_int 2 h = Inl (OutOfMemory h)" unfolding h_def by code_simp
  have c: "m_count v = m_capacity v" by (simp add: v_def)
  have n: "(if m_capacity v = 0 then 1 else m_capacity v * 2) = 2" by (simp add: v_def)
  have pre: "m_count v = m_capacity v \<and>
    allocate T_int (if m_capacity v = 0 then 1 else m_capacity v * 2) h = Inl (OutOfMemory h)"
    using a c by (simp only: n simp_thms)
  from growth_failure_leaves_vector_unchanged [of T_int v 6 h "(v, h)" "\<lambda>x. x + 1" 5 "(v, h)"
    "OutOfMemory h"]
  have "m_count v = m_capacity v \<and>
    allocate T_int (if m_capacity v = 0 then 1 else m_capacity v * 2) h = Inl (OutOfMemory h) \<longrightarrow>
      push_back T_int v 6 h = Inl (OutOfMemory (v, h)) \<and>
      emplace_back T_int v (\<lambda>x. x + 1) 5 h = Inl (OutOfMemory (v, h))"
    by (rule conjunct2 [THEN conjunct2])
  from this pre have "push_back T_int v 6 h = Inl (OutOfMemory (v, h)) \<and>
      emplace_back T_int v (\<lambda>x. x + 1) 5 h = Inl (OutOfMemory (v, h))"
    by (rule mp)
  with a show ?thesis unfolding v_def h_def by (simp only: simp_thms)
qed

text \<open>
  C6. A growth step that returns, on a vector of fewer than \<open>2 ^ 31\<close> elements (the counts
  that the \<^verbatim>\<open>int\<close> parameter of \<^verbatim>\<open>asd::move\<close> represents): the new block is allocated, each of
  the \<open>m_count\<close> elements is move-constructed into the slot of the same index of the new
  block, in index order, and then the old storage is handed to \<open>deallocate\<close>. At that moment
  every one of these slots of the old block still holds a live, moved-from object; the
  step runs no destructor.
\<close>

theorem growth_frees_without_destroying:
  assumes "reallocate T v h = Inr (v', h')" and "unat (m_count v) < 2 ^ 31"
  shows "\<exists>h2. deallocate (m_data_ptr v) h2 = Some h' \<and>
           m_count v' = m_count v \<and>
           (\<forall>j<unat (m_count v). \<exists>x. load h (m_data_ptr v) j = Some x \<and>
                load h2 (m_data_ptr v') j = Some x \<and>
                load h2 (m_data_ptr v) j = Some (moved_from T x)) \<and>
           trace h' = trace h @ Malloc (m_data_ptr v') (unat (m_capacity v' * sizeof T)) #
                        map (Construct (m_data_ptr v')) [0..<unat (m_count v)] @
                        [Free (m_data_ptr v)] \<and>
           (\<forall>e\<in>set (drop (length (trace h)) (trace h')). \<forall>q j. e \<noteq> Destroy q j)"
proof -
  let ?c = "if m_capacity v = 0 then 1 else m_capacity v * 2"
  let ?n = "unat (m_count v)"
  let ?old = "m_data_ptr v"
  from assms(1) obtain p h1 h2 where a: "allocate T ?c h = Inr (p, h1)"
    and m: "move T ?old (int_of_size_t (m_count v)) p h1 = Some h2"
    and d: "deallocate ?old h2 = Some h'"
    and v': "v' = init ?c (m_count v) p"
    by (rule reallocate_Inr)
  from allocate_Inr [OF a] have p: "p \<noteq> 0" "block_at h p = None"
    and b1: "block_at h1 = (block_at h)(p \<mapsto> replicate (unat (?c * sizeof T) div unat (sizeof T)) Raw)"
    and t1: "trace h1 = trace h @ [Malloc p (unat (?c * sizeof T))]"
    by simp_all
  from m assms(2) have ml: "move_loop T ?old p ?n 0 h1 = Some h2"
    by (simp add: move_def loop_bound_small)
  from move_loop_shape [OF ml] have t2: "trace h2 = trace h1 @ map (Construct p) [0..<?n]"
    by simp
  from d have t3: "trace h' = trace h2 @ [Free ?old]"
    by (simp add: deallocate_def free_Some)
  have tr: "trace h' = trace h @ Malloc p (unat (?c * sizeof T)) # map (Construct p) [0..<?n] @ [Free ?old]"
    using t1 t2 t3 by simp
  have elems: "\<forall>j<?n. \<exists>x. load h ?old j = Some x \<and> load h2 p j = Some x \<and>
                load h2 ?old j = Some (moved_from T x)"
  proof (cases "?n = 0")
    case True
    then show ?thesis by simp
  next
    case False
    then have n: "0 < ?n" by simp
    from move_loop_step [OF n ml] obtain x0 where "load h1 ?old 0 = Some x0" by blast
    then obtain src where src1: "block_at h1 ?old = Some src" by (auto simp: load_Some_iff)
    have ne: "?old \<noteq> p"
    proof
      assume "?old = p"
      with \<open>load h1 ?old 0 = Some x0\<close> b1 show False by (auto simp: load_Some_iff)
    qed
    with src1 b1 have src: "block_at h ?old = Some src" by (simp split: if_splits)
    from move_loop_content [OF ml ne n] src1 b1
    obtain dst' where dst': "block_at h2 p = Some dst'" "?n \<le> length dst'" "?n \<le> length src"
      "\<forall>j<length dst'. dst' ! j = (if j < ?n then src ! j
           else replicate (unat (?c * sizeof T) div unat (sizeof T)) Raw ! j)"
      "\<forall>j. j < ?n \<longrightarrow> src ! j \<noteq> Raw"
      by auto
    from move_loop_source [OF ml ne src1]
    obtain src' where src': "block_at h2 ?old = Some src'" "length src' = length src"
      "\<forall>j<length src. src' ! j = (if j < ?n
          then (case src ! j of Raw \<Rightarrow> Raw | Obj x \<Rightarrow> Obj (moved_from T x)) else src ! j)"
      by auto
    show ?thesis
    proof (intro allI impI)
      fix j assume j: "j < ?n"
      with dst'(5) obtain x where x: "src ! j = Obj x" by (cases "src ! j") auto
      from j dst'(2,3) have jl: "j < length dst'" "j < length src" by simp_all
      have "load h ?old j = Some x" using src x jl by (simp add: load_Some_iff)
      moreover have "load h2 p j = Some x" using dst'(1,4) x j jl by (simp add: load_Some_iff)
      moreover have "load h2 ?old j = Some (moved_from T x)"
        using src'(1,2,3) x j jl by (simp add: load_Some_iff)
      ultimately show "\<exists>x. load h ?old j = Some x \<and> load h2 p j = Some x \<and>
                load h2 ?old j = Some (moved_from T x)" by blast
    qed
  qed
  have nd: "\<forall>e\<in>set (drop (length (trace h)) (trace h')). \<forall>q j. e \<noteq> Destroy q j"
    unfolding tr by auto
  from d elems tr nd v' show ?thesis
    by (intro exI [of _ h2]) (simp add: init_def)
qed

section \<open>The representation relation\<close>





lemma holds_null: "holds v h xs \<Longrightarrow> m_data_ptr v = 0 \<Longrightarrow> xs = [] \<and> m_capacity v = 0 \<and> m_count v = 0"
  by (auto simp: holds_def unat_eq_zero)

lemma holds_block:
  assumes "holds v h xs" and "m_data_ptr v \<noteq> 0"
  obtains sl where "block_at h (m_data_ptr v) = Some sl" and "unat (m_capacity v) \<le> length sl"
    and "take (length xs) sl = map Obj xs"
  using assms by (auto simp: holds_def split: option.splits)






section \<open>push_back on a represented sequence\<close>

lemma reallocate_frame:
  assumes "reallocate T v h = Inr (v', h')"
  shows "m_data_ptr v' \<noteq> 0" and "block_at h (m_data_ptr v') = None"
    and "q \<noteq> m_data_ptr v' \<Longrightarrow> q \<noteq> m_data_ptr v \<Longrightarrow> block_at h' q = block_at h q"
proof -
  let ?c = "if m_capacity v = 0 then 1 else m_capacity v * 2"
  from assms obtain p h1 h2 where a: "allocate T ?c h = Inr (p, h1)"
    and m: "move T (m_data_ptr v) (int_of_size_t (m_count v)) p h1 = Some h2"
    and d: "deallocate (m_data_ptr v) h2 = Some h'"
    and v': "v' = init ?c (m_count v) p"
    by (rule reallocate_Inr)
  from v' have p: "m_data_ptr v' = p" by (simp add: init_def)
  from allocate_Inr [OF a] p show "m_data_ptr v' \<noteq> 0" and "block_at h (m_data_ptr v') = None"
    by simp_all
  assume q: "q \<noteq> m_data_ptr v'" "q \<noteq> m_data_ptr v"
  from allocate_Inr [OF a] q p have "block_at h1 q = block_at h q" by simp
  moreover from move_loop_shape [OF m [unfolded move_def]] q p
  have "block_at h2 q = block_at h1 q" by simp
  moreover from d q have "block_at h' q = block_at h2 q"
    by (simp add: deallocate_def free_Some)
  ultimately show "block_at h' q = block_at h q" by simp
qed

lemma push_back_Inr:
  assumes "push_back T v x h = Inr (v', h')"
  obtains v1 h1 where
    "if m_count v = m_capacity v then reallocate T v h = Inr (v1, h1) else (v1, h1) = (v, h)"
    "placement_new (m_data_ptr v1) (unat (m_count v1)) x h1 = Some h'"
    "v' = v1\<lparr>m_count := m_count v1 + 1\<rparr>"
  using assms
  by (auto simp: push_back_def split: if_splits sum.splits option.splits prod.splits)





section \<open>Runs of push_back from the empty vector\<close>







lemma sizeof_T_string: "sizeof T_string \<noteq> 0"
  by (simp add: T_string_def)






theorem growth_frees_witness:
  "reallocate T_string \<lparr>m_count = 2, m_capacity = 2, m_data_ptr = 1\<rparr>
      \<lparr>blocks = [(1, [Obj ''a'', Obj ''b''])], mem_limit = 1000, trace = []\<rparr> =
    Inr (\<lparr>m_count = 2, m_capacity = 4, m_data_ptr = 2\<rparr>,
         \<lparr>blocks = [(2, [Obj ''a'', Obj ''b'', Raw, Raw])], mem_limit = 1000,
           trace = [Malloc 2 128, Construct 2 0, Construct 2 1, Free 1]\<rparr>) \<and>
   (\<exists>h2. deallocate 1 h2 =
      Some \<lparr>blocks = [(2, [Obj ''a'', Obj ''b'', Raw, Raw])], mem_limit = 1000,
           trace = [Malloc 2 128, Construct 2 0, Construct 2 1, Free 1]\<rparr> \<and>
      load h2 2 0 = Some ''a'' \<and> load h2 1 0 = Some [] \<and>
      load h2 2 1 = Some ''b'' \<and> load h2 1 1 = Some [])"
proof -
  define v where "v = \<lparr>m_count = 2, m_capacity = 2, m_data_ptr = 1\<rparr>"
  define h :: "string heap" where
    "h = \<lparr>blocks = [(1, [Obj ''a'', Obj ''b''])], mem_limit = 1000, trace = []\<rparr>"
  define v' where "v' = \<lparr>m_count = 2, m_capacity = 4, m_data_ptr = 2\<rparr>"
  define h' :: "string heap" where
    "h' = \<lparr>blocks = [(2, [Obj ''a'', Obj ''b'', Raw, Raw])], mem_limit = 1000,
           trace = [Malloc 2 128, Construct 2 0, Construct 2 1, Free 1]\<rparr>"
  have e: "reallocate T_string v h = Inr (v', h')"
    unfolding v_def h_def v'_def h'_def by code_simp
  have s: "unat (m_count v) < 2 ^ 31" by (simp add: v_def)
  have l0: "load h 1 0 = Some ''a''" and l1: "load h 1 1 = Some ''b''"
    unfolding h_def by code_simp+
  have mf: "moved_from T_string ''a'' = []" "moved_from T_string ''b'' = []"
    by (simp_all add: T_string_def)
  from growth_frees_without_destroying [OF e s]
  obtain h2 where d: "deallocate (m_data_ptr v) h2 = Some h'"
    and el: "\<And>j. j < unat (m_count v) \<Longrightarrow> \<exists>x. load h (m_data_ptr v) j = Some x \<and>
                load h2 (m_data_ptr v') j = Some x \<and>
                load h2 (m_data_ptr v) j = Some (moved_from T_string x)"
    by blast
  have p: "m_data_ptr v = 1" "m_data_ptr v' = 2" "unat (m_count v) = 2"
    by (simp_all add: v_def v'_def)
  from el [of 0] l0 mf p have a: "load h2 2 0 = Some ''a'' \<and> load h2 1 0 = Some []" by auto
  from el [of 1] l1 mf p have b: "load h2 2 1 = Some ''b'' \<and> load h2 1 1 = Some []" by auto
  from d p have "deallocate 1 h2 = Some h'" by simp
  with a b have "\<exists>h2. deallocate 1 h2 = Some h' \<and>
      load h2 2 0 = Some ''a'' \<and> load h2 1 0 = Some [] \<and>
      load h2 2 1 = Some ''b'' \<and> load h2 1 1 = Some []" by blast
  with e show ?thesis unfolding v_def h_def v'_def h'_def by (rule conjI)
qed

section \<open>Copy construction\<close>

lemma emplace_back_push_back:
  "emplace_back T v ctor args h = push_back T v (ctor args) h"
  by (simp add: emplace_back_def push_back_def)




lemma vector_copy_empty:
  "size_vec w = 0 \<Longrightarrow> vector_copy T w h = Inr (reset, h)"
  by (simp add: vector_copy_def)

lemma vector_copy_Inr:
  assumes "vector_copy T w h = Inr (v, h')" and "size_vec w \<noteq> 0"
  obtains p h1 where "allocate T (size_vec w) h = Inr (p, h1)"
    and "copy (m_data_ptr w) (int_of_size_t (size_vec w)) p h1 = Some h'"
    and "v = init (size_vec w) (size_vec w) p"
  using assms by (auto simp: vector_copy_def split: sum.splits option.splits prod.splits)




section \<open>Assignment\<close>

lemma copy_assign_Inr:
  assumes "copy_assign T v w h = Inr (v', h', r)"
  obtains p h3 where
    "if m_capacity v < m_count w
     then (\<exists>h1. allocate T (m_count w) h = Inr (p, h1) \<and> destroy T v h1 = Some h3)
     else p = m_data_ptr v \<and> h3 = h"
    "copy (m_data_ptr w) (int_of_size_t (m_count w)) p h3 = Some h'"
    "v' = init (size_vec w) (size_vec w) p" "r = Some v'"
  using assms
  by (auto simp: copy_assign_def Let_def
      split: if_splits sum.splits error.splits option.splits prod.splits)

text \<open>
  C9. After a copy assignment \<open>v = w\<close> that returns, the capacity of \<open>v\<close> is the size of \<open>w\<close>.
  When the capacity of \<open>v\<close> was not below the size of \<open>w\<close>, the storage pointer and the
  block it points to are kept (same pointer, same number of slots); so when \<open>v\<close> represented
  a sequence and had a capacity above the size of \<open>w\<close>, its new capacity is below the
  number of slots of its block.
\<close>

theorem copy_assign_capacity:
  assumes "copy_assign T v w h = Inr (v', h', r)"
  shows "capacity v' = size_vec w \<and>
         (\<not> m_capacity v < m_count w \<longrightarrow>
            m_data_ptr v' = m_data_ptr v \<and>
            map_option length (block_at h' (m_data_ptr v')) =
              map_option length (block_at h (m_data_ptr v))) \<and>
         (holds v h xs \<and> size_vec w < capacity v \<longrightarrow>
            (\<exists>sl. block_at h' (m_data_ptr v') = Some sl \<and>
                  unat (capacity v') < unat (capacity v) \<and> unat (capacity v) \<le> length sl))"
proof -
  from assms obtain p h3 where
    s: "if m_capacity v < m_count w
        then (\<exists>h1. allocate T (m_count w) h = Inr (p, h1) \<and> destroy T v h1 = Some h3)
        else p = m_data_ptr v \<and> h3 = h"
    and cp: "copy (m_data_ptr w) (int_of_size_t (m_count w)) p h3 = Some h'"
    and v': "v' = init (size_vec w) (size_vec w) p"
    by (rule copy_assign_Inr)
  from v' have cap: "capacity v' = size_vec w" and ptr: "m_data_ptr v' = p"
    by (simp_all add: init_def capacity_def)
  have reuse: "m_data_ptr v' = m_data_ptr v \<and>
            map_option length (block_at h' (m_data_ptr v')) =
              map_option length (block_at h (m_data_ptr v))"
    if "\<not> m_capacity v < m_count w"
  proof -
    from s that have p: "p = m_data_ptr v" and h3: "h3 = h" by simp_all
    from copy_loop_shape [OF cp [unfolded copy_def]] p h3 ptr show ?thesis by simp
  qed
  have shrink: "\<exists>sl. block_at h' (m_data_ptr v') = Some sl \<and>
                  unat (capacity v') < unat (capacity v) \<and> unat (capacity v) \<le> length sl"
    if hv: "holds v h xs" and lt: "size_vec w < capacity v"
  proof -
    from lt have n: "\<not> m_capacity v < m_count w" by (simp add: size_vec_def capacity_def)
    from lt have "m_capacity v \<noteq> 0" by (auto simp: capacity_def word_less_nat_alt)
    with hv have "m_data_ptr v \<noteq> 0" by (auto dest: holds_null)
    with hv obtain sl where sl: "block_at h (m_data_ptr v) = Some sl"
      "unat (m_capacity v) \<le> length sl"
      by (rule holds_block)
    from reuse [OF n] sl(1) obtain sl' where sl': "block_at h' (m_data_ptr v') = Some sl'"
      "length sl' = length sl"
      by auto
    from lt cap have "unat (capacity v') < unat (capacity v)" by (simp add: word_less_nat_alt)
    with sl' sl(2) show ?thesis by (simp add: capacity_def)
  qed
  from cap reuse shrink show ?thesis by blast
qed

theorem copy_assign_capacity_witness:
  "copy_assign T_int \<lparr>m_count = 3, m_capacity = 4, m_data_ptr = 1\<rparr>
     \<lparr>m_count = 1, m_capacity = 1, m_data_ptr = 2\<rparr>
     \<lparr>blocks = [(2, [Obj 7]), (1, [Obj 1, Obj 2, Obj 3, Raw])], mem_limit = 1000, trace = []\<rparr> =
   Inr (\<lparr>m_count = 1, m_capacity = 1, m_data_ptr = 1\<rparr>,
        \<lparr>blocks = [(2, [Obj 7]), (1, [Obj 7, Obj 2, Obj 3, Raw])],
          mem_limit = 1000, trace = [Construct 1 0]\<rparr>,
        Some \<lparr>m_count = 1, m_capacity = 1, m_data_ptr = 1\<rparr>) \<and>
   holds \<lparr>m_count = 3, m_capacity = 4, m_data_ptr = 1\<rparr>
     \<lparr>blocks = [(2, [Obj 7]), (1, [Obj 1, Obj 2, Obj 3, Raw])], mem_limit = 1000, trace = []\<rparr>
     [1, 2, 3 :: int] \<and>
   capacity \<lparr>m_count = 1, m_capacity = 1, m_data_ptr = 1\<rparr> = 1 \<and>
   (\<exists>sl. block_at \<lparr>blocks = [(2, [Obj 7]), (1, [Obj 7, Obj 2, Obj (3::int), Raw])],
          mem_limit = 1000, trace = [Construct 1 0]\<rparr> 1 = Some sl \<and> 4 \<le> length sl)"
proof -
  define v where "v = \<lparr>m_count = 3, m_capacity = 4, m_data_ptr = 1\<rparr>"
  define w where "w = \<lparr>m_count = 1, m_capacity = 1, m_data_ptr = 2\<rparr>"
  define h :: "int heap" where
    "h = \<lparr>blocks = [(2, [Obj 7]), (1, [Obj 1, Obj 2, Obj 3, Raw])], mem_limit = 1000, trace = []\<rparr>"
  define v' where "v' = \<lparr>m_count = 1, m_capacity = 1, m_data_ptr = 1\<rparr>"
  define h' :: "int heap" where
    "h' = \<lparr>blocks = [(2, [Obj 7]), (1, [Obj 7, Obj 2, Obj 3, Raw])],
          mem_limit = 1000, trace = [Construct 1 0]\<rparr>"
  have e: "copy_assign T_int v w h = Inr (v', h', Some v')"
    unfolding v_def w_def h_def v'_def h'_def by code_simp
  have a: "holds v h [1, 2, 3]" unfolding v_def h_def by code_simp
  have lt: "size_vec w < capacity v" by (simp add: w_def v_def size_vec_def capacity_def)
  note inst = copy_assign_capacity [OF e, of "[1, 2, 3]"]
  from inst have c: "capacity v' = size_vec w" by (rule conjunct1)
  from inst have "holds v h [1, 2, 3] \<and> size_vec w < capacity v \<longrightarrow>
            (\<exists>sl. block_at h' (m_data_ptr v') = Some sl \<and>
                  unat (capacity v') < unat (capacity v) \<and> unat (capacity v) \<le> length sl)"
    by (rule conjunct2 [THEN conjunct2])
  with a lt obtain sl where "block_at h' (m_data_ptr v') = Some sl" "unat (capacity v) \<le> length sl"
    by blast
  then have "\<exists>sl. block_at h' 1 = Some sl \<and> 4 \<le> length sl"
    by (auto simp: v'_def v_def capacity_def)
  moreover from c have "capacity v' = 1" by (simp add: w_def size_vec_def)
  ultimately show ?thesis using e a
    unfolding v_def w_def h_def v'_def h'_def by (intro conjI)
qed

section \<open>Null storage and zero capacity\<close>

lemma null_iff_empty_reset: "null_iff_empty reset"
  by (simp add: null_iff_empty_def reset_def)

lemma vector_copy_null_iff_empty:
  assumes "vector_copy T w h = Inr (v', h')"
  shows "null_iff_empty v'"
proof (cases "size_vec w = 0")
  case True
  with assms vector_copy_empty [OF True, of T h] show ?thesis
    by (simp add: null_iff_empty_reset)
next
  case False
  from assms False obtain p h1 where a: "allocate T (size_vec w) h = Inr (p, h1)"
    and v': "v' = init (size_vec w) (size_vec w) p"
    by (rule vector_copy_Inr)
  from allocate_Inr [OF a] have "p \<noteq> 0" by simp
  with False v' show ?thesis by (simp add: null_iff_empty_def init_def)
qed

lemma reallocate_block_length:
  assumes "reallocate T v h = Inr (v', h')" and "block_at h' (m_data_ptr v') = Some sl"
  shows "length sl = unat (m_capacity v' * sizeof T) div unat (sizeof T)"
proof -
  let ?c = "if m_capacity v = 0 then 1 else m_capacity v * 2"
  from assms(1) obtain p h1 h2 where a: "allocate T ?c h = Inr (p, h1)"
    and m: "move T (m_data_ptr v) (int_of_size_t (m_count v)) p h1 = Some h2"
    and d: "deallocate (m_data_ptr v) h2 = Some h'"
    and v': "v' = init ?c (m_count v) p"
    by (rule reallocate_Inr)
  from v' have p: "m_data_ptr v' = p" and c: "m_capacity v' = ?c" by (simp_all add: init_def)
  from d have "block_at h' = (block_at h2)(m_data_ptr v := None)"
    by (simp add: deallocate_def free_Some)
  with assms(2) p have "block_at h2 p = Some sl" by (simp split: if_splits)
  moreover from move_loop_shape [OF m [unfolded move_def]]
  have "map_option length (block_at h2 p) = map_option length (block_at h1 p)" by blast
  ultimately have "map_option length (block_at h1 p) = Some (length sl)" by simp
  with allocate_Inr [OF a] c show ?thesis by auto
qed

lemma push_back_null_iff_empty:
  assumes "null_iff_empty v" and "push_back T v x h = Inr (v', h')"
  shows "null_iff_empty v'"
proof -
  from assms(2) obtain v1 h1 where
    s: "if m_count v = m_capacity v then reallocate T v h = Inr (v1, h1) else (v1, h1) = (v, h)"
    and p: "placement_new (m_data_ptr v1) (unat (m_count v1)) x h1 = Some h'"
    and v': "v' = v1\<lparr>m_count := m_count v1 + 1\<rparr>"
    by (rule push_back_Inr)
  have "null_iff_empty v1"
  proof (cases "m_count v = m_capacity v")
    case False
    with s assms(1) show ?thesis by simp
  next
    case True
    with s have r: "reallocate T v h = Inr (v1, h1)" by simp
    from reallocate_frame(1) [OF r] have nn: "m_data_ptr v1 \<noteq> 0" .
    from placement_new_Some [OF p] obtain sl where sl: "block_at h1 (m_data_ptr v1) = Some sl"
      "unat (m_count v1) < length sl"
      by blast
    from reallocate_block_length [OF r sl(1)] sl(2)
    have "0 < unat (m_capacity v1 * sizeof T) div unat (sizeof T)" by simp
    then have "m_capacity v1 \<noteq> 0" by (auto intro: ccontr)
    with nn show ?thesis by (simp add: null_iff_empty_def)
  qed
  with v' show ?thesis by (simp add: null_iff_empty_def)
qed

lemma move_assign_fields:
  assumes "move_assign T v w h = Some (v', w', h', r)"
  shows "v' = init (m_capacity w) (m_count w) (m_data_ptr w)" and "w' = reset" and "r = None"
  using assms by (auto simp: move_assign_def split: option.splits)

lemma copy_assign_null_iff_empty:
  assumes pre: "null_iff_empty v" and ca: "copy_assign T v w h = Inr (v', h', r)"
  shows "m_data_ptr v' = 0 \<longrightarrow> m_capacity v' = 0"
    and "null_iff_empty v' \<longleftrightarrow> size_vec w \<noteq> 0 \<or> m_capacity v = 0"
proof -
  from ca obtain p h3 where
    s: "if m_capacity v < m_count w
        then (\<exists>h1. allocate T (m_count w) h = Inr (p, h1) \<and> destroy T v h1 = Some h3)
        else p = m_data_ptr v \<and> h3 = h"
    and v': "v' = init (size_vec w) (size_vec w) p"
    by (rule copy_assign_Inr)
  from v' have f: "m_data_ptr v' = p" "m_capacity v' = m_count w"
    by (simp_all add: init_def size_vec_def)
  have "(m_data_ptr v' = 0 \<longrightarrow> m_capacity v' = 0) \<and>
        (null_iff_empty v' \<longleftrightarrow> size_vec w \<noteq> 0 \<or> m_capacity v = 0)"
  proof (cases "m_capacity v < m_count w")
    case True
    with s obtain h1 where "allocate T (m_count w) h = Inr (p, h1)" by auto
    from allocate_Inr [OF this] have pn: "p \<noteq> 0" by simp
    from True have "m_count w \<noteq> 0" by (auto simp: word_less_nat_alt)
    with pn f show ?thesis by (simp add: null_iff_empty_def size_vec_def)
  next
    case False
    with s have p: "p = m_data_ptr v" by simp
    from False have le: "unat (m_count w) \<le> unat (m_capacity v)"
      by (simp add: word_less_nat_alt)
    from pre have iff: "(m_data_ptr v = 0) = (m_capacity v = 0)" by (simp add: null_iff_empty_def)
    have z: "m_capacity v = 0 \<Longrightarrow> m_count w = 0"
      using le by (simp add: unat_eq_zero)
    show ?thesis
      using f p iff z by (auto simp: null_iff_empty_def size_vec_def)
  qed
  then show "m_data_ptr v' = 0 \<longrightarrow> m_capacity v' = 0"
    and "null_iff_empty v' \<longleftrightarrow> size_vec w \<noteq> 0 \<or> m_capacity v = 0"
    by simp_all
qed

text \<open>
  C3, as the code has it. The storage pointer is null exactly when the capacity is zero
  after default construction, after copy construction, after move construction (for the
  new vector and for the source), after \<open>push_back\<close> and \<open>emplace_back\<close>, and after move
  assignment (for the destination and for the source), each from vectors of which the
  same is true. After copy assignment a null storage pointer still comes with capacity
  zero, and the equivalence holds exactly when the source is not empty or the destination
  had capacity zero.
\<close>

theorem null_iff_empty_observable:
  "null_iff_empty vector_default \<and>
   (vector_copy T w h = Inr (v', h') \<longrightarrow> null_iff_empty v') \<and>
   (null_iff_empty w \<longrightarrow>
      null_iff_empty (fst (vector_move w)) \<and> null_iff_empty (snd (vector_move w))) \<and>
   (null_iff_empty v \<and> push_back T v x h = Inr (v', h') \<longrightarrow> null_iff_empty v') \<and>
   (null_iff_empty v \<and> emplace_back T v ctor args h = Inr (v', h') \<longrightarrow> null_iff_empty v') \<and>
   (null_iff_empty w \<and> move_assign T v w h = Some (v', w', h', r') \<longrightarrow>
      null_iff_empty v' \<and> null_iff_empty w') \<and>
   (null_iff_empty v \<and> copy_assign T v w h = Inr (v', h', r) \<longrightarrow>
      (m_data_ptr v' = 0 \<longrightarrow> m_capacity v' = 0) \<and>
      (null_iff_empty v' \<longleftrightarrow> size_vec w \<noteq> 0 \<or> m_capacity v = 0))"
proof (intro conjI impI)
  show "null_iff_empty vector_default"
    by (simp add: vector_default_def null_iff_empty_reset)
next
  assume "vector_copy T w h = Inr (v', h')"
  then show "null_iff_empty v'" by (rule vector_copy_null_iff_empty)
next
  assume "null_iff_empty w"
  then show "null_iff_empty (fst (vector_move w))"
    by (simp add: vector_move_def init_def null_iff_empty_def)
next
  show "null_iff_empty (snd (vector_move w))"
    by (simp add: vector_move_def null_iff_empty_reset)
next
  assume "null_iff_empty v \<and> push_back T v x h = Inr (v', h')"
  then show "null_iff_empty v'" by (auto intro: push_back_null_iff_empty)
next
  assume "null_iff_empty v \<and> emplace_back T v ctor args h = Inr (v', h')"
  then show "null_iff_empty v'"
    by (auto simp: emplace_back_push_back intro: push_back_null_iff_empty)
next
  assume a: "null_iff_empty w \<and> move_assign T v w h = Some (v', w', h', r')"
  then have m: "move_assign T v w h = Some (v', w', h', r')" by simp
  from move_assign_fields(1) [OF m] a show "null_iff_empty v'"
    by (simp add: init_def null_iff_empty_def)
  from move_assign_fields(2) [OF m] show "null_iff_empty w'"
    by (simp add: null_iff_empty_reset)
next
  assume a: "null_iff_empty v \<and> copy_assign T v w h = Inr (v', h', r)"
  then have p: "null_iff_empty v" and c: "copy_assign T v w h = Inr (v', h', r)" by simp_all
  assume "m_data_ptr v' = 0"
  with copy_assign_null_iff_empty(1) [OF p c] show "m_capacity v' = 0" by simp
next
  assume a: "null_iff_empty v \<and> copy_assign T v w h = Inr (v', h', r)"
  then have p: "null_iff_empty v" and c: "copy_assign T v w h = Inr (v', h', r)" by simp_all
  from copy_assign_null_iff_empty(2) [OF p c]
  show "null_iff_empty v' \<longleftrightarrow> size_vec w \<noteq> 0 \<or> m_capacity v = 0" .
qed

theorem null_iff_empty_witness:
  "null_iff_empty vector_default \<and>
   push_back T_int vector_default 10 (empty_heap 1000) =
     Inr (\<lparr>m_count = 1, m_capacity = 1, m_data_ptr = 1\<rparr>,
          \<lparr>blocks = [(1, [Obj 10])], mem_limit = 1000,
            trace = [Malloc 1 4, Free 0, Construct 1 0]\<rparr>) \<and>
   null_iff_empty \<lparr>m_count = 1, m_capacity = 1, m_data_ptr = 1\<rparr>"
proof -
  define v where "v = \<lparr>m_count = 1, m_capacity = 1, m_data_ptr = 1\<rparr>"
  define h :: "int heap" where
    "h = \<lparr>blocks = [(1, [Obj 10])], mem_limit = 1000, trace = [Malloc 1 4, Free 0, Construct 1 0]\<rparr>"
  have e: "push_back T_int vector_default 10 (empty_heap 1000) = Inr (v, h)"
    unfolding v_def h_def by code_simp
  note inst = null_iff_empty_observable [where T = T_int and v = vector_default
     and h = "empty_heap 1000" and v' = v and h' = h and x = 10]
  from inst have d: "null_iff_empty vector_default" by (rule conjunct1)
  from inst have "null_iff_empty vector_default \<and>
       push_back T_int vector_default 10 (empty_heap 1000) = Inr (v, h) \<longrightarrow> null_iff_empty v"
    by (rule conjunct2 [THEN conjunct2, THEN conjunct2, THEN conjunct1])
  with d e have "null_iff_empty v" by blast
  with d e show ?thesis unfolding v_def h_def by (intro conjI)
qed

text \<open>
  C3, as stated, fails after a copy assignment from an empty vector to a vector that owns
  storage: the storage is kept and the capacity is recorded as zero.
\<close>

theorem null_iff_empty_counterexample:
  "push_back T_int vector_default 10 (empty_heap 1000) =
     Inr (\<lparr>m_count = 1, m_capacity = 1, m_data_ptr = 1\<rparr>,
          \<lparr>blocks = [(1, [Obj 10])], mem_limit = 1000,
            trace = [Malloc 1 4, Free 0, Construct 1 0]\<rparr>) \<and>
   null_iff_empty \<lparr>m_count = 1, m_capacity = 1, m_data_ptr = 1\<rparr> \<and>
   null_iff_empty vector_default \<and>
   copy_assign T_int \<lparr>m_count = 1, m_capacity = 1, m_data_ptr = 1\<rparr> vector_default
       \<lparr>blocks = [(1, [Obj 10])], mem_limit = 1000,
            trace = [Malloc 1 4, Free 0, Construct 1 0]\<rparr> =
     Inr (\<lparr>m_count = 0, m_capacity = 0, m_data_ptr = 1\<rparr>,
          \<lparr>blocks = [(1, [Obj 10])], mem_limit = 1000,
            trace = [Malloc 1 4, Free 0, Construct 1 0]\<rparr>,
          Some \<lparr>m_count = 0, m_capacity = 0, m_data_ptr = 1\<rparr>) \<and>
   capacity \<lparr>m_count = 0, m_capacity = 0, m_data_ptr = 1\<rparr> = 0 \<and>
   m_data_ptr \<lparr>m_count = 0, m_capacity = 0, m_data_ptr = 1\<rparr> \<noteq> 0 \<and>
   \<not> null_iff_empty \<lparr>m_count = 0, m_capacity = 0, m_data_ptr = 1\<rparr>"
  by code_simp

text \<open>
  C2, on the code. Copy assignment into a vector whose capacity suffices constructs the
  new element in slot 0 of the block while the old element lives there: the only event is
  the construction, no destructor has run. (When the capacity does not suffice, the
  assignment does destroy the old elements before it frees their block.)
\<close>

theorem copy_assign_constructs_over_live:
  "load \<lparr>blocks = [(2, [Obj ''new'']), (1, [Obj ''old''])], mem_limit = 1000, trace = []\<rparr> 1 0 =
     Some ''old'' \<and>
   copy_assign T_string \<lparr>m_count = 1, m_capacity = 1, m_data_ptr = 1\<rparr>
       \<lparr>m_count = 1, m_capacity = 1, m_data_ptr = 2\<rparr>
       \<lparr>blocks = [(2, [Obj ''new'']), (1, [Obj ''old''])], mem_limit = 1000, trace = []\<rparr> =
     Inr (\<lparr>m_count = 1, m_capacity = 1, m_data_ptr = 1\<rparr>,
          \<lparr>blocks = [(2, [Obj ''new'']), (1, [Obj ''new''])], mem_limit = 1000,
            trace = [Construct 1 0]\<rparr>,
          Some \<lparr>m_count = 1, m_capacity = 1, m_data_ptr = 1\<rparr>) \<and>
   copy_assign T_string \<lparr>m_count = 1, m_capacity = 1, m_data_ptr = 1\<rparr>
       \<lparr>m_count = 2, m_capacity = 2, m_data_ptr = 2\<rparr>
       \<lparr>blocks = [(2, [Obj ''new'', Obj ''er'']), (1, [Obj ''old''])], mem_limit = 1000,
         trace = []\<rparr> =
     Inr (\<lparr>m_count = 2, m_capacity = 2, m_data_ptr = 3\<rparr>,
          \<lparr>blocks = [(3, [Obj ''new'', Obj ''er'']), (2, [Obj ''new'', Obj ''er''])],
            mem_limit = 1000,
            trace = [Malloc 3 64, Destroy 1 0, Free 1, Construct 3 0, Construct 3 1]\<rparr>,
          Some \<lparr>m_count = 2, m_capacity = 2, m_data_ptr = 3\<rparr>)"
  by code_simp

text \<open>
  C10, on the code. Move assignment transfers the storage and empties the source, and then
  reaches the end of its body: no object is returned.
\<close>

theorem move_assign_returns_nothing:
  "move_assign T_string \<lparr>m_count = 1, m_capacity = 1, m_data_ptr = 1\<rparr>
       \<lparr>m_count = 1, m_capacity = 1, m_data_ptr = 2\<rparr>
       \<lparr>blocks = [(2, [Obj ''new'']), (1, [Obj ''old''])], mem_limit = 1000, trace = []\<rparr> =
     Some (\<lparr>m_count = 1, m_capacity = 1, m_data_ptr = 2\<rparr>,
           \<lparr>m_count = 0, m_capacity = 0, m_data_ptr = 0\<rparr>,
           \<lparr>blocks = [(2, [Obj ''new''])], mem_limit = 1000, trace = [Destroy 1 0, Free 1]\<rparr>,
           None)"
  by code_simp

end
